theory Spec2Isabelle
  imports Main "HOL-Library.Word"
begin

section \<open>JavaScript strings\<close>

text \<open>
  A JavaScript string is a sequence of 16-bit UTF-16 code units. \<open>js\<close> writes an ASCII
  literal of the source as such a sequence.
\<close>

type_synonym jsstring = "16 word list"

definition js :: "string \<Rightarrow> jsstring" where
  "js s = map (\<lambda>c. of_nat (of_char c)) s"

text \<open>
  \<open>String.prototype.trim\<close> removes leading and trailing WhiteSpace and LineTerminator
  code points (ECMA-262): TAB, LF, VT, FF, CR, SP, NBSP, the other Unicode space
  separators, LS, PS and the byte order mark. All of them are single code units.
\<close>

definition isWhiteSpace :: "16 word \<Rightarrow> bool" where
  "isWhiteSpace c \<longleftrightarrow>
     c = 0x09 \<or> c = 0x0A \<or> c = 0x0B \<or> c = 0x0C \<or> c = 0x0D \<or> c = 0x20 \<or> c = 0xA0 \<or>
     c = 0x1680 \<or> (0x2000 \<le> c \<and> c \<le> 0x200A) \<or> c = 0x2028 \<or> c = 0x2029 \<or>
     c = 0x202F \<or> c = 0x205F \<or> c = 0x3000 \<or> c = 0xFEFF"

definition trim :: "jsstring \<Rightarrow> jsstring" where
  "trim s = rev (dropWhile isWhiteSpace (rev (dropWhile isWhiteSpace s)))"

text \<open>
  \<open>Date.now().toString()\<close>: \<open>Date.now()\<close> is a whole number of milliseconds, far below
  \<open>10^21\<close>, so \<open>Number.prototype.toString\<close> prints its decimal digits.
\<close>

definition digit :: "nat \<Rightarrow> 16 word" where
  "digit d = 0x30 + of_nat d"

fun toString :: "nat \<Rightarrow> jsstring" where
  "toString n = (if n < 10 then [digit n] else toString (n div 10) @ [digit (n mod 10)])"

declare toString.simps [simp del]

section \<open>Tasks and their serialisation\<close>

text \<open>
  The objects of the \<open>tasks\<close> array: \<open>{ id, text, completed }\<close> (addTask, line 72 of the
  to-do list App.js).
\<close>

record Task =
  id_t :: jsstring
  text_t :: jsstring
  completed :: bool

subsection \<open>JSON.stringify\<close>

text \<open>
  \<open>JSON.stringify(tasks)\<close> on an array of such objects, after ECMA-262:
  SerializeJSONArray joins the elements with commas between brackets,
  SerializeJSONObject prints the own properties in creation order, and QuoteJSONString
  escapes the quote, the backslash, the control characters and every surrogate code
  unit that is not part of a pair.
\<close>

definition hexDigit :: "nat \<Rightarrow> 16 word" where
  "hexDigit d = (if d < 10 then 0x30 + of_nat d else 0x61 + of_nat (d - 10))"

definition UnicodeEscape :: "16 word \<Rightarrow> jsstring" where
  "UnicodeEscape c =
     [0x5C, 0x75, hexDigit (unat c div 4096 mod 16), hexDigit (unat c div 256 mod 16),
      hexDigit (unat c div 16 mod 16), hexDigit (unat c mod 16)]"

definition isLeadingSurrogate :: "16 word \<Rightarrow> bool" where
  "isLeadingSurrogate c \<longleftrightarrow> 0xD800 \<le> c \<and> c \<le> 0xDBFF"

definition isTrailingSurrogate :: "16 word \<Rightarrow> bool" where
  "isTrailingSurrogate c \<longleftrightarrow> 0xDC00 \<le> c \<and> c \<le> 0xDFFF"

fun quoteChars :: "jsstring \<Rightarrow> jsstring" where
  "quoteChars [] = []"
| "quoteChars (c # cs) =
     (if c = 0x08 then [0x5C, 0x62] @ quoteChars cs
      else if c = 0x09 then [0x5C, 0x74] @ quoteChars cs
      else if c = 0x0A then [0x5C, 0x6E] @ quoteChars cs
      else if c = 0x0C then [0x5C, 0x66] @ quoteChars cs
      else if c = 0x0D then [0x5C, 0x72] @ quoteChars cs
      else if c = 0x22 then [0x5C, 0x22] @ quoteChars cs
      else if c = 0x5C then [0x5C, 0x5C] @ quoteChars cs
      else if c < 0x20 then UnicodeEscape c @ quoteChars cs
      else if isLeadingSurrogate c then
        (case cs of
           [] \<Rightarrow> UnicodeEscape c
         | d # ds \<Rightarrow>
             if isTrailingSurrogate d then c # d # quoteChars ds
             else UnicodeEscape c @ quoteChars cs)
      else if isTrailingSurrogate c then UnicodeEscape c @ quoteChars cs
      else c # quoteChars cs)"

definition QuoteJSONString :: "jsstring \<Rightarrow> jsstring" where
  "QuoteJSONString s = [0x22] @ quoteChars s @ [0x22]"

definition SerializeJSONObject :: "Task \<Rightarrow> jsstring" where
  "SerializeJSONObject t =
     js ''{\"id\":'' @ QuoteJSONString (id_t t) @
     js '',\"text\":'' @ QuoteJSONString (text_t t) @
     js '',\"completed\":'' @ (if completed t then js ''true'' else js ''false'') @
     js ''}''"

fun joinComma :: "jsstring list \<Rightarrow> jsstring" where
  "joinComma [] = []"
| "joinComma [x] = x"
| "joinComma (x # y # ys) = x @ [0x2C] @ joinComma (y # ys)"

definition JSON_stringify :: "Task list \<Rightarrow> jsstring" where
  "JSON_stringify ts = [0x5B] @ joinComma (map SerializeJSONObject ts) @ [0x5D]"

subsection \<open>JSON.parse\<close>

text \<open>
  The values \<open>JSON.parse\<close> builds. An object is kept as its members in the order of the
  text; a number is kept as its lexeme (no field of a task is a number, so its value as
  a double is never needed).
\<close>

datatype jsval =
    JNull
  | JBool bool
  | JNum jsstring
  | JStr jsstring
  | JArr "jsval list"
  | JObj "(jsstring \<times> jsval) list"

datatype error = SyntaxError | StorageError

text \<open>JSON white space: TAB, LF, CR and SP only.\<close>

definition isJSONWhiteSpace :: "16 word \<Rightarrow> bool" where
  "isJSONWhiteSpace c \<longleftrightarrow> c = 0x09 \<or> c = 0x0A \<or> c = 0x0D \<or> c = 0x20"

definition skipWS :: "jsstring \<Rightarrow> jsstring" where
  "skipWS s = dropWhile isJSONWhiteSpace s"

definition hexValue :: "16 word \<Rightarrow> nat option" where
  "hexValue c =
     (if 0x30 \<le> c \<and> c \<le> 0x39 then Some (unat c - 0x30)
      else if 0x61 \<le> c \<and> c \<le> 0x66 then Some (unat c - 0x61 + 10)
      else if 0x41 \<le> c \<and> c \<le> 0x46 then Some (unat c - 0x41 + 10)
      else None)"

definition hex4 :: "16 word \<Rightarrow> 16 word \<Rightarrow> 16 word \<Rightarrow> 16 word \<Rightarrow> 16 word option" where
  "hex4 a b c d =
     (case (hexValue a, hexValue b, hexValue c, hexValue d) of
        (Some p, Some q, Some r, Some s) \<Rightarrow> Some (of_nat (((p * 16 + q) * 16 + r) * 16 + s))
      | _ \<Rightarrow> None)"

text \<open>The single-character escapes of a JSON string: quote, backslash, slash, b, f, n, r, t.\<close>

definition unescape :: "16 word \<Rightarrow> 16 word option" where
  "unescape e =
     (if e = 0x22 then Some 0x22
      else if e = 0x5C then Some 0x5C
      else if e = 0x2F then Some 0x2F
      else if e = 0x62 then Some 0x08
      else if e = 0x66 then Some 0x0C
      else if e = 0x6E then Some 0x0A
      else if e = 0x72 then Some 0x0D
      else if e = 0x74 then Some 0x09
      else None)"

definition consChar :: "16 word \<Rightarrow> (jsstring \<times> jsstring) option \<Rightarrow> (jsstring \<times> jsstring) option" where
  "consChar c r = (case r of None \<Rightarrow> None | Some (s, rest) \<Rightarrow> Some (c # s, rest))"

text \<open>
  The characters of a string after its opening quote, up to the closing quote: the
  string's value and the rest of the text. Code units below U+0020 must be escaped.
\<close>

fun parseChars :: "jsstring \<Rightarrow> (jsstring \<times> jsstring) option" where
  "parseChars [] = None"
| "parseChars (c # cs) =
     (if c = 0x22 then Some ([], cs)
      else if c = 0x5C then
        (case cs of
           [] \<Rightarrow> None
         | e # es \<Rightarrow>
             if e = 0x75 then
               (case es of
                  h1 # h2 # h3 # h4 # rest \<Rightarrow>
                    (case hex4 h1 h2 h3 h4 of
                       None \<Rightarrow> None
                     | Some u \<Rightarrow> consChar u (parseChars rest))
                | _ \<Rightarrow> None)
             else
               (case unescape e of
                  None \<Rightarrow> None
                | Some u \<Rightarrow> consChar u (parseChars es)))
      else if c < 0x20 then None
      else consChar c (parseChars cs))"

text \<open>
  A JSON number: an optional minus, an integer part without a leading zero, an optional
  fraction and an optional exponent. The result is the lexeme and the rest.
\<close>

definition isDigit :: "16 word \<Rightarrow> bool" where
  "isDigit c \<longleftrightarrow> 0x30 \<le> c \<and> c \<le> 0x39"

definition spanDigits :: "jsstring \<Rightarrow> jsstring \<times> jsstring" where
  "spanDigits s = (takeWhile isDigit s, dropWhile isDigit s)"

definition parseInt :: "jsstring \<Rightarrow> (jsstring \<times> jsstring) option" where
  "parseInt s =
     (case s of
        [] \<Rightarrow> None
      | c # cs \<Rightarrow>
          if c = 0x30 then Some ([c], cs)
          else if isDigit c then (case spanDigits cs of (ds, rest) \<Rightarrow> Some (c # ds, rest))
          else None)"

definition parseFrac :: "jsstring \<Rightarrow> (jsstring \<times> jsstring) option" where
  "parseFrac s =
     (case s of
        [] \<Rightarrow> Some ([], s)
      | c # cs \<Rightarrow>
          if c = 0x2E then
            (case spanDigits cs of (ds, rest) \<Rightarrow> if ds = [] then None else Some (c # ds, rest))
          else Some ([], s))"

definition parseExp :: "jsstring \<Rightarrow> (jsstring \<times> jsstring) option" where
  "parseExp s =
     (case s of
        [] \<Rightarrow> Some ([], s)
      | c # cs \<Rightarrow>
          if c = 0x65 \<or> c = 0x45 then
            (case cs of
               [] \<Rightarrow> None
             | g # gs \<Rightarrow>
                 if g = 0x2B \<or> g = 0x2D then
                   (case spanDigits gs of (ds, rest) \<Rightarrow>
                      if ds = [] then None else Some (c # g # ds, rest))
                 else
                   (case spanDigits cs of (ds, rest) \<Rightarrow>
                      if ds = [] then None else Some (c # ds, rest)))
          else Some ([], s))"

definition parseNumber :: "jsstring \<Rightarrow> (jsstring \<times> jsstring) option" where
  "parseNumber s =
     (case (case s of
              [] \<Rightarrow> None
            | c # cs \<Rightarrow> if c = 0x2D then consChar c (parseInt cs) else parseInt s) of
        None \<Rightarrow> None
      | Some (i, r1) \<Rightarrow>
          (case parseFrac r1 of
             None \<Rightarrow> None
           | Some (f, r2) \<Rightarrow>
               (case parseExp r2 of
                  None \<Rightarrow> None
                | Some (e, r3) \<Rightarrow> Some (i @ f @ e, r3))))"

definition stripPrefix :: "jsstring \<Rightarrow> jsstring \<Rightarrow> jsstring option" where
  "stripPrefix p s = (if take (length p) s = p then Some (drop (length p) s) else None)"

text \<open>
  The value grammar, by recursive descent. The first argument bounds the number of
  nested calls; \<open>JSON_parse\<close> starts it above the length of the text, which is
  always enough (lemma \<open>JSON_parse_complete\<close> below). A value starts at the first
  character (the caller skips white space); the result is the value and the rest.
\<close>

fun parseValue :: "nat \<Rightarrow> jsstring \<Rightarrow> (jsval \<times> jsstring) option"
  and parseElements :: "nat \<Rightarrow> jsstring \<Rightarrow> (jsval list \<times> jsstring) option"
  and parseMembers :: "nat \<Rightarrow> jsstring \<Rightarrow> ((jsstring \<times> jsval) list \<times> jsstring) option"
where
  "parseValue 0 s = None"
| "parseValue (Suc n) [] = None"
| "parseValue (Suc n) (c # cs) =
     (if c = 0x5B then
        (case skipWS cs of
           [] \<Rightarrow> None
         | d # ds \<Rightarrow>
             if d = 0x5D then Some (JArr [], ds)
             else (case parseElements n (d # ds) of
                     None \<Rightarrow> None
                   | Some (vs, rest) \<Rightarrow> Some (JArr vs, rest)))
      else if c = 0x7B then
        (case skipWS cs of
           [] \<Rightarrow> None
         | d # ds \<Rightarrow>
             if d = 0x7D then Some (JObj [], ds)
             else (case parseMembers n (d # ds) of
                     None \<Rightarrow> None
                   | Some (ms, rest) \<Rightarrow> Some (JObj ms, rest)))
      else if c = 0x22 then
        (case parseChars cs of
           None \<Rightarrow> None
         | Some (s, rest) \<Rightarrow> Some (JStr s, rest))
      else if c = 0x74 then
        (case stripPrefix (js ''rue'') cs of None \<Rightarrow> None | Some rest \<Rightarrow> Some (JBool True, rest))
      else if c = 0x66 then
        (case stripPrefix (js ''alse'') cs of None \<Rightarrow> None | Some rest \<Rightarrow> Some (JBool False, rest))
      else if c = 0x6E then
        (case stripPrefix (js ''ull'') cs of None \<Rightarrow> None | Some rest \<Rightarrow> Some (JNull, rest))
      else
        (case parseNumber (c # cs) of
           None \<Rightarrow> None
         | Some (l, rest) \<Rightarrow> Some (JNum l, rest)))"
| "parseElements 0 s = None"
| "parseElements (Suc n) s =
     (case parseValue n s of
        None \<Rightarrow> None
      | Some (v, r) \<Rightarrow>
          (case skipWS r of
             [] \<Rightarrow> None
           | d # ds \<Rightarrow>
               if d = 0x5D then Some ([v], ds)
               else if d = 0x2C then
                 (case parseElements n (skipWS ds) of
                    None \<Rightarrow> None
                  | Some (vs, rest) \<Rightarrow> Some (v # vs, rest))
               else None))"
| "parseMembers 0 s = None"
| "parseMembers (Suc n) [] = None"
| "parseMembers (Suc n) (q # qs) =
     (if q \<noteq> 0x22 then None
      else
        (case parseChars qs of
           None \<Rightarrow> None
         | Some (k, r0) \<Rightarrow>
             (case skipWS r0 of
                [] \<Rightarrow> None
              | colon # r1 \<Rightarrow>
                  if colon \<noteq> 0x3A then None
                  else
                    (case parseValue n (skipWS r1) of
                       None \<Rightarrow> None
                     | Some (v, r2) \<Rightarrow>
                         (case skipWS r2 of
                            [] \<Rightarrow> None
                          | d # ds \<Rightarrow>
                              if d = 0x7D then Some ([(k, v)], ds)
                              else if d = 0x2C then
                                (case parseMembers n (skipWS ds) of
                                   None \<Rightarrow> None
                                 | Some (ms, rest) \<Rightarrow> Some ((k, v) # ms, rest))
                              else None)))))"

definition JSON_parse :: "jsstring \<Rightarrow> error + jsval" where
  "JSON_parse s =
     (case parseValue (Suc (length s)) (skipWS s) of
        None \<Rightarrow> Inl SyntaxError
      | Some (v, rest) \<Rightarrow> if skipWS rest = [] then Inr v else Inl SyntaxError)"

text \<open>
  Reading a parsed value as a list of tasks: an array of objects with exactly the
  members \<open>id\<close> (a string), \<open>text\<close> (a string) and \<open>completed\<close> (a boolean), in the order
  in which \<open>addTask\<close> creates them and \<open>JSON.stringify\<close> prints them. Any other value is
  not a list of tasks.
\<close>

definition task_of_json :: "jsval \<Rightarrow> Task option" where
  "task_of_json v =
     (case v of
        JObj [(k1, JStr i), (k2, JStr t), (k3, JBool c)] \<Rightarrow>
          if k1 = js ''id'' \<and> k2 = js ''text'' \<and> k3 = js ''completed''
          then Some \<lparr>id_t = i, text_t = t, completed = c\<rparr> else None
      | _ \<Rightarrow> None)"

fun those_tasks :: "jsval list \<Rightarrow> Task list option" where
  "those_tasks [] = Some []"
| "those_tasks (v # vs) =
     (case task_of_json v of
        None \<Rightarrow> None
      | Some t \<Rightarrow> (case those_tasks vs of None \<Rightarrow> None | Some ts \<Rightarrow> Some (t # ts)))"

definition tasks_of_json :: "jsval \<Rightarrow> Task list option" where
  "tasks_of_json v = (case v of JArr vs \<Rightarrow> those_tasks vs | _ \<Rightarrow> None)"

text \<open>
  The value \<open>JSON.parse\<close> builds from the text \<open>JSON.stringify\<close> prints for a task, and
  the code units \<open>QuoteJSONString\<close> copies unless they are control characters or
  surrogates.
\<close>

definition json_of_task :: "Task \<Rightarrow> jsval" where
  "json_of_task t =
     JObj [(js ''id'', JStr (id_t t)), (js ''text'', JStr (text_t t)),
           (js ''completed'', JBool (completed t))]"

definition plain :: "16 word \<Rightarrow> bool" where
  "plain c \<longleftrightarrow> c \<noteq> 0x08 \<and> c \<noteq> 0x09 \<and> c \<noteq> 0x0A \<and> c \<noteq> 0x0C \<and> c \<noteq> 0x0D \<and> c \<noteq> 0x22
     \<and> c \<noteq> 0x5C"

section \<open>The to-do list component\<close>

text \<open>
  The component \<open>App\<close> of the to-do list screen. Its four state variables are the first
  four fields; the others are the environment the handlers act on: the AsyncStorage
  items, the requests made to it, the console, the clock and the timing animations that
  are running. An \<open>Animated.Value\<close> is recorded with the number it was constructed
  with; how far a running animation has moved it is not tracked.
\<close>

datatype animated = Animated_Value nat

datatype callback =
    NoCallback
  | DeleteTaskDone jsstring "jsstring \<rightharpoonup> animated"

record timing =
  target :: jsstring
  toValue :: nat
  finishes :: nat
  callback :: callback

datatype getItem_result = Resolved "jsstring option" | Rejected

datatype log = LoadFailed error | SaveFailed error

record world =
  task :: jsstring
  tasks :: "Task list"
  editingId :: "jsstring option"
  taskAnimations :: "jsstring \<rightharpoonup> animated"
  storage :: "jsstring \<rightharpoonup> jsstring"
  storage_fails :: bool
  getItem_pending :: "getItem_result option"
  setItem_calls :: "(jsstring \<times> jsstring) list"
  console :: "log list"
  now :: nat
  running :: "timing list"

text \<open>
  \<open>saveTasksToStorage\<close> (lines 59 to 65): \<open>AsyncStorage.setItem('tasks',
  JSON.stringify(tasks))\<close>; a rejection is caught and logged.
\<close>

definition saveTasksToStorage :: "world \<Rightarrow> world" where
  "saveTasksToStorage w =
     (let v = JSON_stringify (tasks w);
          w1 = w\<lparr>setItem_calls := setItem_calls w @ [(js ''tasks'', v)]\<rparr>
      in if storage_fails w1 then w1\<lparr>console := console w1 @ [SaveFailed StorageError]\<rparr>
         else w1\<lparr>storage := (storage w1)(js ''tasks'' \<mapsto> v)\<rparr>)"

text \<open>
  \<open>setTasks\<close> with the effect that depends on it. \<open>useEffect(..., [tasks])\<close> (lines 58 to
  67) runs \<open>saveTasksToStorage\<close> after every render in which \<open>tasks\<close> is another array
  than before, and every call of \<open>setTasks\<close> in the component installs a new array (a
  spread, a \<open>filter\<close>, a \<open>map\<close> or a parsed value). The effect reads \<open>tasks\<close> only and
  writes the storage, the console and the request log only, which no handler touches,
  so it is run here at once.
\<close>

definition setTasks :: "(Task list \<Rightarrow> Task list) \<Rightarrow> world \<Rightarrow> world" where
  "setTasks f w = saveTasksToStorage (w\<lparr>tasks := f (tasks w)\<rparr>)"

text \<open>\<open>Animated.timing(value, {toValue, duration: 500}).start(callback)\<close>.\<close>

definition startTiming :: "jsstring \<Rightarrow> nat \<Rightarrow> callback \<Rightarrow> world \<Rightarrow> world" where
  "startTiming k v cb w =
     w\<lparr>running := running w @
          [\<lparr>target = k, toValue = v, finishes = now w + 500, callback = cb\<rparr>]\<rparr>"

text \<open>\<open>addTask\<close> (lines 70 to 88). The text is the state variable \<open>task\<close> of the input field.\<close>

definition addTask :: "world \<Rightarrow> world" where
  "addTask w =
     (if trim (task w) \<noteq> [] then
        let newTask = \<lparr>id_t = toString (now w), text_t = task w, completed = False\<rparr>;
            w1 = setTasks (\<lambda>prevTasks. prevTasks @ [newTask]) w;
            newTaskAnimations = (taskAnimations w)(id_t newTask \<mapsto> Animated_Value 0);
            w2 = w1\<lparr>taskAnimations := newTaskAnimations\<rparr>;
            w3 = startTiming (id_t newTask) 1 NoCallback w2
        in w3\<lparr>task := []\<rparr>
      else w)"

text \<open>\<open>Array.prototype.findIndex\<close>: the first index whose element satisfies the test, or -1.\<close>

fun findIndex :: "('a \<Rightarrow> bool) \<Rightarrow> 'a list \<Rightarrow> int" where
  "findIndex P [] = -1"
| "findIndex P (x # xs) =
     (if P x then 0 else (let i = findIndex P xs in if i < 0 then -1 else i + 1))"

text \<open>
  \<open>deleteTask\<close> (lines 91 to 113), up to the start of the animation. The callback keeps
  \<open>taskId\<close> and \<open>newTaskAnimations\<close>.
\<close>

definition deleteTask :: "jsstring \<Rightarrow> world \<Rightarrow> world" where
  "deleteTask taskId w =
     (let taskIndex = findIndex (\<lambda>task. id_t task = taskId) (tasks w) in
      if taskIndex \<ge> 0 then
        let newTaskAnimations = (taskAnimations w)(taskId \<mapsto> Animated_Value 1);
            w1 = w\<lparr>taskAnimations := newTaskAnimations\<rparr>
        in startTiming taskId 0 (DeleteTaskDone taskId newTaskAnimations) w1
      else w)"

text \<open>The callback of \<open>deleteTask\<close> (lines 104 to 111), run when the animation is done.\<close>

definition deleteTaskDone :: "jsstring \<Rightarrow> (jsstring \<rightharpoonup> animated) \<Rightarrow> world \<Rightarrow> world" where
  "deleteTaskDone taskId newTaskAnimations w =
     (let w1 = setTasks (filter (\<lambda>item. id_t item \<noteq> taskId)) w;
          updatedTaskAnimations = newTaskAnimations(taskId := None)
      in w1\<lparr>taskAnimations := updatedTaskAnimations\<rparr>)"

text \<open>\<open>toggleComplete\<close> (lines 116 to 122).\<close>

definition toggleComplete :: "jsstring \<Rightarrow> world \<Rightarrow> world" where
  "toggleComplete taskId w =
     setTasks (map (\<lambda>task. if id_t task = taskId
                             then task\<lparr>completed := \<not> completed task\<rparr> else task)) w"

text \<open>\<open>updateTask\<close> (lines 125 to 131).\<close>

definition updateTask :: "jsstring \<Rightarrow> jsstring \<Rightarrow> world \<Rightarrow> world" where
  "updateTask taskId newText w =
     setTasks (map (\<lambda>task. if id_t task = taskId
                             then task\<lparr>text_t := newText\<rparr> else task)) w"

text \<open>\<open>handleBlur\<close> (lines 134 to 136) and the two setters the elements call directly.\<close>

definition handleBlur :: "world \<Rightarrow> world" where
  "handleBlur w = w\<lparr>editingId := None\<rparr>"

definition setEditingId :: "jsstring \<Rightarrow> world \<Rightarrow> world" where
  "setEditingId i w = w\<lparr>editingId := Some i\<rparr>"

definition setTask :: "jsstring \<Rightarrow> world \<Rightarrow> world" where
  "setTask t w = w\<lparr>task := t\<rparr>"

subsection \<open>Start-up\<close>

text \<open>
  The first render has the initial values of \<open>useState\<close>. After it both effects run in
  the order of the source: \<open>loadTasksFromStorage\<close> requests the item (the request is
  answered later, with what the storage held when it was made), then
  \<open>saveTasksToStorage\<close> writes the list of the first render.
\<close>

definition init :: "(jsstring \<rightharpoonup> jsstring) \<Rightarrow> bool \<Rightarrow> nat \<Rightarrow> world" where
  "init store fails t =
     \<lparr>task = [], tasks = [], editingId = None, taskAnimations = Map.empty,
      storage = store, storage_fails = fails, getItem_pending = None,
      setItem_calls = [], console = [], now = t, running = []\<rparr>"

definition getItem :: "jsstring \<Rightarrow> world \<Rightarrow> getItem_result" where
  "getItem k w = (if storage_fails w then Rejected else Resolved (storage w k))"

definition mount :: "world \<Rightarrow> world" where
  "mount w = saveTasksToStorage (w\<lparr>getItem_pending := Some (getItem (js ''tasks'') w)\<rparr>)"

text \<open>
  \<open>loadTasksFromStorage\<close> (lines 44 to 53) from the point where \<open>getItem\<close> has settled. An
  empty string is falsy, as \<open>null\<close> is. A parsed value that is not a list of tasks is
  stored by the source all the same; the component's later behaviour on it is not
  modelled, and the value is returned on the left.
\<close>

definition loadTasksFromStorage :: "getItem_result \<Rightarrow> world \<Rightarrow> jsval + world" where
  "loadTasksFromStorage r w =
     (case r of
        Rejected \<Rightarrow> Inr (w\<lparr>console := console w @ [LoadFailed StorageError]\<rparr>)
      | Resolved None \<Rightarrow> Inr w
      | Resolved (Some savedTasks) \<Rightarrow>
          if savedTasks = [] then Inr w
          else
            (case JSON_parse savedTasks of
               Inl e \<Rightarrow> Inr (w\<lparr>console := console w @ [LoadFailed e]\<rparr>)
             | Inr v \<Rightarrow>
                 (case tasks_of_json v of
                    None \<Rightarrow> Inl v
                  | Some ts \<Rightarrow> Inr (setTasks (\<lambda>_. ts) w))))"

subsection \<open>Events\<close>

text \<open>
  What the component reacts to: the elements of the rendered tree calling their handlers,
  the storage answering the read of start-up, and time passing. When time passes, the
  animations that are due end in the order in which they were started, and each one's
  callback runs.
\<close>

fun fire :: "callback \<Rightarrow> world \<Rightarrow> world" where
  "fire NoCallback w = w"
| "fire (DeleteTaskDone taskId newTaskAnimations) w = deleteTaskDone taskId newTaskAnimations w"

definition elapse :: "nat \<Rightarrow> world \<Rightarrow> world" where
  "elapse dt w =
     (let t = now w + dt;
          due = filter (\<lambda>a. finishes a \<le> t) (running w);
          w1 = w\<lparr>now := t, running := filter (\<lambda>a. \<not> finishes a \<le> t) (running w)\<rparr>
      in fold (\<lambda>a. fire (callback a)) due w1)"

datatype event =
    ChangeText jsstring
  | PressAdd
  | PressItem jsstring
  | PressEdit jsstring
  | ChangeItemText jsstring jsstring
  | BlurItem
  | PressDelete jsstring
  | GetItemSettled
  | Elapse nat

fun step :: "event \<Rightarrow> world \<Rightarrow> jsval + world" where
  "step (ChangeText t) w = Inr (setTask t w)"
| "step PressAdd w = Inr (addTask w)"
| "step (PressItem i) w = Inr (toggleComplete i w)"
| "step (PressEdit i) w = Inr (setEditingId i w)"
| "step (ChangeItemText i t) w = Inr (updateTask i t w)"
| "step BlurItem w = Inr (handleBlur w)"
| "step (PressDelete i) w = Inr (deleteTask i w)"
| "step GetItemSettled w =
     (case getItem_pending w of
        None \<Rightarrow> Inr w
      | Some r \<Rightarrow> loadTasksFromStorage r (w\<lparr>getItem_pending := None\<rparr>))"
| "step (Elapse dt) w = Inr (elapse dt w)"

fun run :: "event list \<Rightarrow> world \<Rightarrow> jsval + world" where
  "run [] w = Inr w"
| "run (e # es) w = (case step e w of Inl v \<Rightarrow> Inl v | Inr w' \<Rightarrow> run es w')"

subsection \<open>Animations that are due\<close>


definition due :: "nat \<Rightarrow> world \<Rightarrow> timing list" where
  "due dt w = filter (\<lambda>a. finishes a \<le> now w + dt) (running w)"

subsection \<open>A sample state\<close>

text \<open>
  The state after start-up on an empty storage at clock reading 7 and one \<open>addTask\<close> of
  "Buy milk": the first step of the scenario the properties below are tried on.
\<close>

definition sample :: world where
  "sample = addTask (setTask (js ''Buy milk'') (mount (init Map.empty False 7)))"


section \<open>Properties\<close>

subsection \<open>Auxiliary facts\<close>

lemma trim_empty_iff: "trim s = [] \<longleftrightarrow> (\<forall>c \<in> set s. isWhiteSpace c)"
proof
  assume "trim s = []"
  then have a: "\<forall>c \<in> set (dropWhile isWhiteSpace s). isWhiteSpace c"
    by (simp add: trim_def)
  have "dropWhile isWhiteSpace s = []"
  proof (rule ccontr)
    assume ne: "dropWhile isWhiteSpace s \<noteq> []"
    then have "\<not> isWhiteSpace (hd (dropWhile isWhiteSpace s))"
      by (rule hd_dropWhile)
    moreover from ne have "hd (dropWhile isWhiteSpace s) \<in> set (dropWhile isWhiteSpace s)"
      by (rule hd_in_set)
    ultimately show False using a by blast
  qed
  then show "\<forall>c \<in> set s. isWhiteSpace c" by simp
next
  assume "\<forall>c \<in> set s. isWhiteSpace c"
  then have "dropWhile isWhiteSpace s = []" by simp
  then show "trim s = []" unfolding trim_def by (simp only: rev.simps dropWhile.simps)
qed

lemma findIndex_nonneg_iff: "findIndex P xs \<ge> 0 \<longleftrightarrow> (\<exists>x \<in> set xs. P x)"
  by (induction xs) (auto simp: Let_def)

lemma tasks_setTasks: "tasks (setTasks f w) = f (tasks w)"
  by (simp add: setTasks_def saveTasksToStorage_def Let_def)

lemma editingId_setTasks: "editingId (setTasks f w) = editingId w"
  by (simp add: setTasks_def saveTasksToStorage_def Let_def)

lemma toString_7: "toString 7 = js ''7''"
  by (simp add: toString.simps digit_def js_def)

lemma trim_Buy_milk: "trim (js ''Buy milk'') \<noteq> []"
  by (simp add: trim_def js_def isWhiteSpace_def)

lemma tasks_sample:
  "tasks sample = [\<lparr>id_t = js ''7'', text_t = js ''Buy milk'', completed = False\<rparr>]"
  using trim_Buy_milk
  by (simp add: sample_def addTask_def setTask_def Let_def startTiming_def tasks_setTasks
      mount_def init_def saveTasksToStorage_def toString_7)


















subsection \<open>Clock readings as ids\<close>

text \<open>
  Different clock readings print as different ids, so a new task's id is fresh
  whenever no task of the list was created at the same clock reading.
\<close>

lemma unat_digit: "a < 10 \<Longrightarrow> unat (digit a) = 48 + a"
proof -
  assume a: "a < 10"
  have "digit a = of_nat (48 + a)" by (simp add: digit_def)
  then have "unat (digit a) = (48 + a) mod 2 ^ LENGTH(16)"
    by (simp only: unat_of_nat)
  also have "\<dots> = 48 + a" using a by simp
  finally show ?thesis .
qed

lemma digit_inj:
  assumes a: "a < 10" and b: "b < 10" and e: "digit a = digit b"
  shows "a = b"
proof -
  have "unat (digit a) = unat (digit b)" using e by (simp only:)
  then have "48 + a = 48 + b" by (simp only: unat_digit [OF a] unat_digit [OF b])
  then show ?thesis by simp
qed

lemma toString_small: "n < 10 \<Longrightarrow> toString n = [digit n]"
  by (subst toString.simps) simp

lemma toString_large: "\<not> n < 10 \<Longrightarrow> toString n = toString (n div 10) @ [digit (n mod 10)]"
  by (subst toString.simps) simp

lemma toString_nonempty: "toString n \<noteq> []"
proof (cases "n < 10")
  case True
  then show ?thesis by (simp only: toString_small) simp
next
  case False
  then show ?thesis by (simp only: toString_large [OF False]) simp
qed

lemma toString_inj: "toString n = toString m \<Longrightarrow> n = m"
proof (induction n arbitrary: m rule: toString.induct)
  case (1 n)
  show ?case
  proof (cases "n < 10")
    case True
    show ?thesis
    proof (cases "m < 10")
      case m: True
      from "1.prems" have "[digit n] = [digit m]"
        by (simp only: toString_small [OF True] toString_small [OF m])
      then have "digit n = digit m" by simp
      with True m show ?thesis by (rule digit_inj)
    next
      case False
      from "1.prems" have "[digit n] = toString (m div 10) @ [digit (m mod 10)]"
        by (simp only: toString_small [OF True] toString_large [OF False])
      then have "toString (m div 10) = []" by simp
      then show ?thesis using toString_nonempty by blast
    qed
  next
    case False
    show ?thesis
    proof (cases "m < 10")
      case True
      from "1.prems" have "toString (n div 10) @ [digit (n mod 10)] = [digit m]"
        by (simp only: toString_small [OF True] toString_large [OF False])
      then have "toString (n div 10) = []" by simp
      then show ?thesis using toString_nonempty by blast
    next
      case m: False
      from "1.prems" have
        "toString (n div 10) @ [digit (n mod 10)] = toString (m div 10) @ [digit (m mod 10)]"
        by (simp only: toString_large [OF False] toString_large [OF m])
      then have e: "toString (n div 10) = toString (m div 10)"
        and d: "digit (n mod 10) = digit (m mod 10)"
        by simp_all
      have q: "n div 10 = m div 10" using "1.IH" [OF False e] .
      have "n mod 10 < 10" and "m mod 10 < 10" by simp_all
      then have r: "n mod 10 = m mod 10" using d by (rule digit_inj)
      have "n = n div 10 * 10 + n mod 10" by simp
      also have "\<dots> = m div 10 * 10 + m mod 10" by (simp only: q r)
      also have "\<dots> = m" by simp
      finally show ?thesis .
    qed
  qed
qed

lemma addTask_fresh_id:
  assumes "trim (task w) \<noteq> []" and "distinct (map id_t (tasks w))"
    and "toString (now w) \<notin> id_t ` set (tasks w)"
  shows "distinct (map id_t (tasks (addTask w)))"
  using assms by (simp add: addTask_def Let_def startTiming_def tasks_setTasks)

subsection \<open>Parsing what \<open>JSON.stringify\<close> printed\<close>

lemma hexValue_hexDigit: "d < 16 \<Longrightarrow> hexValue (hexDigit d) = Some d"
  by (auto simp: hexValue_def hexDigit_def word_le_nat_alt unat_word_ariths unat_of_nat)

lemma radix16:
  "a = b * 16 + r0 \<Longrightarrow> b = c * 16 + r1 \<Longrightarrow> c = d * 16 + r2 \<Longrightarrow>
   ((d * 16 + r2) * 16 + r1) * 16 + r0 = (a::nat)"
  by simp

lemma hex_decompose:
  assumes "n < 65536"
  shows "((n div 4096 mod 16 * 16 + n div 256 mod 16) * 16 + n div 16 mod 16) * 16 + n mod 16
         = (n::nat)"
proof -
  have a: "n div 16 div 16 = n div 256" by (simp add: div_mult2_eq)
  have b: "n div 256 div 16 = n div 4096" by (simp add: div_mult2_eq)
  have c: "n div 4096 mod 16 = n div 4096" using assms by simp
  have e1: "n = n div 16 * 16 + n mod 16" by simp
  have e2: "n div 16 = n div 256 * 16 + n div 16 mod 16"
    using div_mult_mod_eq [of "n div 16" 16] a by simp
  have e3: "n div 256 = n div 4096 mod 16 * 16 + n div 256 mod 16"
    using div_mult_mod_eq [of "n div 256" 16] b c by simp
  show ?thesis
    by (rule radix16 [OF e1 e2 e3])
qed

lemma hex4_UnicodeEscape:
  "hex4 (hexDigit (unat c div 4096 mod 16)) (hexDigit (unat c div 256 mod 16))
        (hexDigit (unat c div 16 mod 16)) (hexDigit (unat c mod 16)) = Some (c :: 16 word)"
proof -
  have "unat c < 65536" using unsigned_less [of c] by simp
  then have "((unat c div 4096 mod 16 * 16 + unat c div 256 mod 16) * 16 + unat c div 16 mod 16) * 16
      + unat c mod 16 = unat c"
    by (rule hex_decompose)
  then have "(of_nat (((unat c div 4096 mod 16 * 16 + unat c div 256 mod 16) * 16
      + unat c div 16 mod 16) * 16 + unat c mod 16) :: 16 word) = of_nat (unat c)"
    by (simp only:)
  then have e: "(of_nat (((unat c div 4096 mod 16 * 16 + unat c div 256 mod 16) * 16
      + unat c div 16 mod 16) * 16 + unat c mod 16) :: 16 word) = c"
    by simp
  have h: "hexValue (hexDigit (unat c div 4096 mod 16)) = Some (unat c div 4096 mod 16)"
    "hexValue (hexDigit (unat c div 256 mod 16)) = Some (unat c div 256 mod 16)"
    "hexValue (hexDigit (unat c div 16 mod 16)) = Some (unat c div 16 mod 16)"
    "hexValue (hexDigit (unat c mod 16)) = Some (unat c mod 16)"
    by (simp_all add: hexValue_hexDigit)
  show ?thesis
    unfolding hex4_def h using e by (simp only: prod.case option.case)
qed

lemma parseChars_raw:
  "c \<noteq> 0x22 \<Longrightarrow> c \<noteq> 0x5C \<Longrightarrow> \<not> c < 0x20 \<Longrightarrow> parseChars (c # cs) = consChar c (parseChars cs)"
  by simp

lemma parseChars_escape:
  "unescape e = Some u \<Longrightarrow> e \<noteq> 0x75 \<Longrightarrow> parseChars (0x5C # e # es) = consChar u (parseChars es)"
  by simp

lemma parseChars_unicode:
  "hex4 h1 h2 h3 h4 = Some u \<Longrightarrow>
   parseChars (0x5C # 0x75 # h1 # h2 # h3 # h4 # rest) = consChar u (parseChars rest)"
  by simp

lemma parseChars_quote: "parseChars (0x22 # rest) = Some ([], rest)"
  by simp

lemma surrogate_raw:
  "isLeadingSurrogate c \<or> isTrailingSurrogate c \<Longrightarrow> c \<noteq> 0x22 \<and> c \<noteq> 0x5C \<and> \<not> c < 0x20"
  by (auto simp: isLeadingSurrogate_def isTrailingSurrogate_def word_le_nat_alt word_less_nat_alt)

lemma parseChars_UnicodeEscape:
  "parseChars (UnicodeEscape c @ rest) = consChar c (parseChars rest)"
  unfolding UnicodeEscape_def
  using parseChars_unicode [OF hex4_UnicodeEscape [of c]] by simp

lemma quoteChars_escapes:
  "quoteChars (0x08 # cs) = [0x5C, 0x62] @ quoteChars cs"
  "quoteChars (0x09 # cs) = [0x5C, 0x74] @ quoteChars cs"
  "quoteChars (0x0A # cs) = [0x5C, 0x6E] @ quoteChars cs"
  "quoteChars (0x0C # cs) = [0x5C, 0x66] @ quoteChars cs"
  "quoteChars (0x0D # cs) = [0x5C, 0x72] @ quoteChars cs"
  "quoteChars (0x22 # cs) = [0x5C, 0x22] @ quoteChars cs"
  "quoteChars (0x5C # cs) = [0x5C, 0x5C] @ quoteChars cs"
  by simp_all

lemma quoteChars_control:
  "plain c \<Longrightarrow> c < 0x20 \<Longrightarrow> quoteChars (c # cs) = UnicodeEscape c @ quoteChars cs"
  by (simp add: plain_def)

lemma quoteChars_lone_leading_end:
  "plain c \<Longrightarrow> \<not> c < 0x20 \<Longrightarrow> isLeadingSurrogate c \<Longrightarrow> quoteChars [c] = UnicodeEscape c"
  by (simp add: plain_def)

lemma quoteChars_pair:
  "plain c \<Longrightarrow> \<not> c < 0x20 \<Longrightarrow> isLeadingSurrogate c \<Longrightarrow> isTrailingSurrogate d \<Longrightarrow>
   quoteChars (c # d # ds) = c # d # quoteChars ds"
  by (simp add: plain_def)

lemma quoteChars_lone_leading:
  "plain c \<Longrightarrow> \<not> c < 0x20 \<Longrightarrow> isLeadingSurrogate c \<Longrightarrow> \<not> isTrailingSurrogate d \<Longrightarrow>
   quoteChars (c # d # ds) = UnicodeEscape c @ quoteChars (d # ds)"
  by (simp add: plain_def)

lemma quoteChars_lone_trailing:
  "plain c \<Longrightarrow> \<not> c < 0x20 \<Longrightarrow> \<not> isLeadingSurrogate c \<Longrightarrow> isTrailingSurrogate c \<Longrightarrow>
   quoteChars (c # cs) = UnicodeEscape c @ quoteChars cs"
  by (simp add: plain_def)

lemma quoteChars_raw:
  "plain c \<Longrightarrow> \<not> c < 0x20 \<Longrightarrow> \<not> isLeadingSurrogate c \<Longrightarrow> \<not> isTrailingSurrogate c \<Longrightarrow>
   quoteChars (c # cs) = c # quoteChars cs"
  by (simp add: plain_def)


declare parseChars.simps [simp del]
declare quoteChars.simps [simp del]

lemma parseChars_quoteChars:
  "parseChars (quoteChars s @ 0x22 # rest) = Some (s, rest)"
proof (induction s rule: length_induct)
  case (1 s)
  then have IH: "\<And>ys. length ys < length s \<Longrightarrow>
      parseChars (quoteChars ys @ 0x22 # rest) = Some (ys, rest)"
    by blast
  show ?case
  proof (cases s)
    case Nil
    then show ?thesis by (simp add: quoteChars.simps(1) parseChars_quote)
  next
    case (Cons c cs)
    have ihcs: "parseChars (quoteChars cs @ 0x22 # rest) = Some (cs, rest)"
      using IH [of cs] Cons by simp
    consider (esc) "\<not> plain c"
      | (ctl) "plain c" "c < 0x20"
      | (lead) "plain c" "\<not> c < 0x20" "isLeadingSurrogate c"
      | (trail) "plain c" "\<not> c < 0x20" "\<not> isLeadingSurrogate c" "isTrailingSurrogate c"
      | (raw) "plain c" "\<not> c < 0x20" "\<not> isLeadingSurrogate c" "\<not> isTrailingSurrogate c"
      by blast
    then show ?thesis
    proof cases
      case esc
      then have "c = 0x08 \<or> c = 0x09 \<or> c = 0x0A \<or> c = 0x0C \<or> c = 0x0D \<or> c = 0x22 \<or> c = 0x5C"
        by (simp add: plain_def)
      then show ?thesis
        using ihcs Cons
        by (elim disjE)
           (simp_all add: quoteChars_escapes parseChars_escape unescape_def consChar_def)
    next
      case ctl
      then show ?thesis
        using ihcs Cons
        by (simp add: quoteChars_control parseChars_UnicodeEscape consChar_def)
    next
      case lead
      show ?thesis
      proof (cases cs)
        case Nil
        then show ?thesis
          using lead Cons
          by (simp add: quoteChars_lone_leading_end parseChars_UnicodeEscape parseChars_quote
              consChar_def)
      next
        case (Cons d ds)
        note cs = this
        show ?thesis
        proof (cases "isTrailingSurrogate d")
          case True
          have ih: "parseChars (quoteChars ds @ 0x22 # rest) = Some (ds, rest)"
            using IH [of ds] \<open>s = c # cs\<close> cs by simp
          have rc: "c \<noteq> 0x22 \<and> c \<noteq> 0x5C \<and> \<not> c < 0x20"
            using lead(3) surrogate_raw by blast
          have rd: "d \<noteq> 0x22 \<and> d \<noteq> 0x5C \<and> \<not> d < 0x20"
            using True surrogate_raw by blast
          show ?thesis
            using lead \<open>s = c # cs\<close> cs True ih rc rd
            by (simp add: quoteChars_pair parseChars_raw consChar_def)
        next
          case False
          show ?thesis
            using lead \<open>s = c # cs\<close> cs False ihcs
            by (simp add: quoteChars_lone_leading parseChars_UnicodeEscape consChar_def)
        qed
      qed
    next
      case trail
      then show ?thesis
        using ihcs Cons
        by (simp add: quoteChars_lone_trailing parseChars_UnicodeEscape consChar_def)
    next
      case raw
      then have "c \<noteq> 0x22 \<and> c \<noteq> 0x5C" by (simp add: plain_def)
      with raw show ?thesis
        using ihcs Cons
        by (simp add: quoteChars_raw parseChars_raw consChar_def)
    qed
  qed
qed

lemma skipWS_keep: "\<not> isJSONWhiteSpace c \<Longrightarrow> skipWS (c # cs) = c # cs"
  by (simp add: skipWS_def)

lemma parseValue_string:
  "parseValue (Suc n) (QuoteJSONString s @ rest) = Some (JStr s, rest)"
  by (simp add: QuoteJSONString_def parseChars_quoteChars)

lemma parseValue_bool:
  "parseValue (Suc n) ((if b then js ''true'' else js ''false'') @ rest) = Some (JBool b, rest)"
  by (simp add: js_def stripPrefix_def)

lemma parseMembers_string_more:
  assumes "quoteChars k = k"
  shows "parseMembers (Suc (Suc n))
           (0x22 # k @ 0x22 # 0x3A # QuoteJSONString s @ 0x2C # 0x22 # nxt) =
         (case parseMembers (Suc n) (0x22 # nxt) of
            None \<Rightarrow> None
          | Some (ms, rest) \<Rightarrow> Some ((k, JStr s) # ms, rest))"
proof -
  have k: "parseChars (k @ 0x22 # 0x3A # QuoteJSONString s @ 0x2C # 0x22 # nxt) =
             Some (k, 0x3A # QuoteJSONString s @ 0x2C # 0x22 # nxt)"
    using parseChars_quoteChars [of k] assms by simp
  have q: "skipWS (QuoteJSONString s @ 0x2C # 0x22 # nxt) =
             QuoteJSONString s @ 0x2C # 0x22 # nxt"
    by (simp add: QuoteJSONString_def skipWS_keep isJSONWhiteSpace_def)
  show ?thesis
    by (simp add: k q parseValue_string skipWS_keep isJSONWhiteSpace_def
        del: parseValue.simps)
qed

lemma parseMembers_bool_last:
  assumes "quoteChars k = k"
  shows "parseMembers (Suc (Suc n))
           (0x22 # k @ 0x22 # 0x3A # (if b then js ''true'' else js ''false'') @ 0x7D # rest) =
         Some ([(k, JBool b)], rest)"
proof -
  have k: "parseChars (k @ 0x22 # 0x3A # (if b then js ''true'' else js ''false'') @ 0x7D # rest) =
             Some (k, 0x3A # (if b then js ''true'' else js ''false'') @ 0x7D # rest)"
    using parseChars_quoteChars [of k] assms by simp
  have q: "skipWS ((if b then js ''true'' else js ''false'') @ 0x7D # rest) =
             (if b then js ''true'' else js ''false'') @ 0x7D # rest"
    by (simp add: js_def skipWS_keep isJSONWhiteSpace_def)
  show ?thesis
    by (simp add: k q parseValue_bool skipWS_keep isJSONWhiteSpace_def
        del: parseValue.simps)
qed

lemma quoteChars_keys:
  "quoteChars (js ''id'') = js ''id''"
  "quoteChars (js ''text'') = js ''text''"
  "quoteChars (js ''completed'') = js ''completed''"
  by (simp_all add: js_def quoteChars.simps isLeadingSurrogate_def isTrailingSurrogate_def)

lemma SerializeJSONObject_shape:
  "SerializeJSONObject t @ rest =
     0x7B # 0x22 # js ''id'' @ 0x22 # 0x3A # QuoteJSONString (id_t t) @
     0x2C # 0x22 # js ''text'' @ 0x22 # 0x3A # QuoteJSONString (text_t t) @
     0x2C # 0x22 # js ''completed'' @ 0x22 # 0x3A #
       (if completed t then js ''true'' else js ''false'') @ 0x7D # rest"
  by (simp add: SerializeJSONObject_def js_def)

lemma parseValue_object:
  "parseValue (Suc (Suc (Suc (Suc (Suc n))))) (SerializeJSONObject t @ rest) =
     Some (json_of_task t, rest)"
proof -
  have m3: "parseMembers (Suc (Suc n))
      (0x22 # js ''completed'' @ 0x22 # 0x3A #
        (if completed t then js ''true'' else js ''false'') @ 0x7D # rest) =
      Some ([(js ''completed'', JBool (completed t))], rest)"
    by (rule parseMembers_bool_last [OF quoteChars_keys(3)])
  have m2: "parseMembers (Suc (Suc (Suc n)))
      (0x22 # js ''text'' @ 0x22 # 0x3A # QuoteJSONString (text_t t) @
       0x2C # 0x22 # js ''completed'' @ 0x22 # 0x3A #
        (if completed t then js ''true'' else js ''false'') @ 0x7D # rest) =
      Some ([(js ''text'', JStr (text_t t)), (js ''completed'', JBool (completed t))], rest)"
    by (simp only: parseMembers_string_more [OF quoteChars_keys(2)] m3 option.case prod.case)
  have m1: "parseMembers (Suc (Suc (Suc (Suc n))))
      (0x22 # js ''id'' @ 0x22 # 0x3A # QuoteJSONString (id_t t) @
       0x2C # 0x22 # js ''text'' @ 0x22 # 0x3A # QuoteJSONString (text_t t) @
       0x2C # 0x22 # js ''completed'' @ 0x22 # 0x3A #
        (if completed t then js ''true'' else js ''false'') @ 0x7D # rest) =
      Some ([(js ''id'', JStr (id_t t)), (js ''text'', JStr (text_t t)),
             (js ''completed'', JBool (completed t))], rest)"
    by (simp only: parseMembers_string_more [OF quoteChars_keys(1)] m2 option.case prod.case)
  show ?thesis
    unfolding SerializeJSONObject_shape
    by (simp add: m1 json_of_task_def skipWS_keep isJSONWhiteSpace_def
        del: parseMembers.simps)
qed

declare parseValue.simps [simp del]
declare parseElements.simps [simp del]
declare parseMembers.simps [simp del]

lemma parseValue_object_fuel:
  assumes "5 \<le> n"
  shows "parseValue n (SerializeJSONObject t @ rest) = Some (json_of_task t, rest)"
proof -
  from assms obtain k where "n = 5 + k"
    using le_Suc_ex by blast
  then have "n = Suc (Suc (Suc (Suc (Suc k))))" by simp
  then show ?thesis by (simp only: parseValue_object)
qed

lemma SerializeJSONObject_head: "\<exists>r. SerializeJSONObject t = 0x7B # r"
  by (simp add: SerializeJSONObject_def js_def)

lemma joinComma_head: "\<exists>r. joinComma (map SerializeJSONObject (t # ts)) = 0x7B # r"
proof (cases ts)
  case Nil
  then show ?thesis using SerializeJSONObject_head [of t] by simp
next
  case (Cons u us)
  then show ?thesis using SerializeJSONObject_head [of t] by auto
qed

lemma length_SerializeJSONObject: "6 \<le> length (SerializeJSONObject t)"
  by (simp add: SerializeJSONObject_def js_def)

lemma length_joinComma:
  "6 + length ts \<le> length (joinComma (map SerializeJSONObject (t # ts)))"
proof (induction ts arbitrary: t)
  case Nil
  then show ?case using length_SerializeJSONObject [of t] by simp
next
  case (Cons u us)
  have "6 + length us \<le> length (joinComma (map SerializeJSONObject (u # us)))"
    by (rule Cons.IH)
  then show ?case
    using length_SerializeJSONObject [of t] by simp
qed

lemma parseElements_tasks:
  "6 + length ts \<le> n \<Longrightarrow>
   parseElements n (joinComma (map SerializeJSONObject (t # ts)) @ 0x5D # rest) =
     Some (map json_of_task (t # ts), rest)"
proof (induction ts arbitrary: t n)
  case Nil
  then obtain m where n: "n = Suc m" and m: "5 \<le> m"
    by (cases n) auto
  show ?case
    by (simp add: n parseElements.simps parseValue_object_fuel [OF m] skipWS_keep
        isJSONWhiteSpace_def)
next
  case (Cons u us)
  then obtain m where n: "n = Suc m" and m: "6 + length us \<le> m"
    by (cases n) auto
  then have m5: "5 \<le> m" by simp
  obtain r where r: "joinComma (map SerializeJSONObject (u # us)) = 0x7B # r"
    using joinComma_head by blast
  have ih: "parseElements m (joinComma (map SerializeJSONObject (u # us)) @ 0x5D # rest) =
      Some (map json_of_task (u # us), rest)"
    using Cons.IH [OF m] .
  have sk: "skipWS (joinComma (map SerializeJSONObject (u # us)) @ 0x5D # rest) =
      joinComma (map SerializeJSONObject (u # us)) @ 0x5D # rest"
    by (simp only: r append_Cons) (simp add: skipWS_keep isJSONWhiteSpace_def)
  have "parseElements (Suc m)
      (SerializeJSONObject t @ 0x2C # joinComma (map SerializeJSONObject (u # us)) @ 0x5D # rest) =
      Some (json_of_task t # map json_of_task (u # us), rest)"
    by (simp add: parseElements.simps parseValue_object_fuel [OF m5] skipWS_keep
        isJSONWhiteSpace_def sk ih del: joinComma.simps list.map)
  then show ?case by (simp add: n)
qed

lemma task_of_json_of_task: "task_of_json (json_of_task t) = Some t"
  by (simp add: task_of_json_def json_of_task_def)

lemma those_tasks_map: "those_tasks (map json_of_task ts) = Some ts"
  by (induction ts) (simp_all add: task_of_json_of_task)

lemma JSON_parse_stringify:
  "JSON_parse (JSON_stringify ts) = Inr (JArr (map json_of_task ts))"
proof (cases ts)
  case Nil
  then show ?thesis
    by (simp add: JSON_parse_def JSON_stringify_def skipWS_keep isJSONWhiteSpace_def
        parseValue.simps skipWS_def)
next
  case (Cons t us)
  obtain r where r: "joinComma (map SerializeJSONObject (t # us)) = 0x7B # r"
    using joinComma_head by blast
  have len: "6 + length us \<le> Suc (length (joinComma (map SerializeJSONObject (t # us)) @ [0x5D]))"
    using length_joinComma [of us t] by simp
  have el: "parseElements (Suc (length (joinComma (map SerializeJSONObject (t # us)) @ [0x5D])))
      (joinComma (map SerializeJSONObject (t # us)) @ [0x5D]) =
      Some (map json_of_task (t # us), [])"
    using parseElements_tasks [OF len, where rest = "[]"] by simp
  have sk: "skipWS (joinComma (map SerializeJSONObject (t # us)) @ [0x5D]) =
      joinComma (map SerializeJSONObject (t # us)) @ [0x5D]"
    by (simp only: r append_Cons) (simp add: skipWS_keep isJSONWhiteSpace_def)
  have "parseValue (Suc (Suc (length (joinComma (map SerializeJSONObject (t # us)) @ [0x5D]))))
      (0x5B # joinComma (map SerializeJSONObject (t # us)) @ [0x5D]) =
      Some (JArr (map json_of_task (t # us)), [])"
    apply (subst parseValue.simps(3))
    apply (simp only: sk)
    apply (simp only: r append_Cons list.case)
    apply (simp only: r [symmetric] append_Cons [symmetric] el)
    apply simp
    done
  then show ?thesis
    by (simp add: JSON_parse_def JSON_stringify_def Cons skipWS_keep isJSONWhiteSpace_def
        skipWS_def del: joinComma.simps list.map)
qed

lemma JSON_stringify_nonempty: "JSON_stringify ts \<noteq> []"
  by (simp add: JSON_stringify_def)


subsection \<open>The parser never runs out of fuel\<close>

text \<open>
  More fuel never changes a result, every successful call consumes at least one code
  unit, and a call that succeeds with some fuel succeeds with as much fuel as it
  consumes code units. So \<open>JSON_parse\<close>, which starts above the length of the text,
  reports a syntax error only when the text has no parse at all.
\<close>

lemma parse_fuel_Suc:
  "(\<forall>s x. parseValue n s = Some x \<longrightarrow> parseValue (Suc n) s = Some x)
   \<and> (\<forall>s x. parseElements n s = Some x \<longrightarrow> parseElements (Suc n) s = Some x)
   \<and> (\<forall>s x. parseMembers n s = Some x \<longrightarrow> parseMembers (Suc n) s = Some x)"
proof (induction n)
  case 0
  show ?case by (simp add: parseValue.simps parseElements.simps parseMembers.simps)
next
  case (Suc n)
  then have v: "\<And>s x. parseValue n s = Some x \<Longrightarrow> parseValue (Suc n) s = Some x"
    and e: "\<And>s x. parseElements n s = Some x \<Longrightarrow> parseElements (Suc n) s = Some x"
    and m: "\<And>s x. parseMembers n s = Some x \<Longrightarrow> parseMembers (Suc n) s = Some x"
    by blast+
  have "parseValue (Suc (Suc n)) s = Some x" if "parseValue (Suc n) s = Some x" for s x
  proof (cases s)
    case Nil
    with that show ?thesis by (simp add: parseValue.simps)
  next
    case (Cons c cs)
    show ?thesis
      using that [unfolded Cons parseValue.simps] unfolding Cons
      apply (subst parseValue.simps(3))
      apply (auto split: if_splits list.splits option.splits dest!: e m)
      done
  qed
  moreover have "parseElements (Suc (Suc n)) s = Some x" if "parseElements (Suc n) s = Some x" for s x
    using that [unfolded parseElements.simps]
    apply (subst parseElements.simps(2))
    apply (auto split: if_splits list.splits option.splits dest!: v e)
    done
  moreover have "parseMembers (Suc (Suc n)) s = Some x" if "parseMembers (Suc n) s = Some x" for s x
  proof (cases s)
    case Nil
    with that show ?thesis by (simp add: parseMembers.simps)
  next
    case (Cons q qs)
    show ?thesis
      using that [unfolded Cons parseMembers.simps] unfolding Cons
      apply (subst parseMembers.simps(3))
      apply (auto split: if_splits list.splits option.splits dest!: v m)
      done
  qed
  ultimately show ?case by blast
qed

lemma length_skipWS: "length (skipWS s) \<le> length s"
  by (simp add: skipWS_def length_dropWhile_le)

lemma skipWS_Cons_length: "skipWS r = d # ds \<Longrightarrow> length ds < length r"
  using length_skipWS [of r] by simp

lemma consChar_Some: "consChar c p = Some (x, r) \<Longrightarrow> \<exists>y. p = Some (y, r)"
  by (auto simp: consChar_def split: option.splits)

lemma parseChars_length: "parseChars s = Some (x, r) \<Longrightarrow> length r < length s"
proof (induction s arbitrary: x r rule: length_induct)
  case (1 s)
  then have IH: "\<And>ys y r. length ys < length s \<Longrightarrow> parseChars ys = Some (y, r) \<Longrightarrow>
      length r < length ys"
    by blast
  show ?case
  proof (cases s)
    case Nil
    with "1.prems" show ?thesis by (simp add: parseChars.simps)
  next
    case (Cons c cs)
    have step: "length r < length ys" if "consChar u (parseChars ys) = Some (x, r)"
      "length ys < length s" for u ys
    proof -
      from that(1) obtain y where "parseChars ys = Some (y, r)"
        using consChar_Some by blast
      then show ?thesis using IH that(2) by blast
    qed
    have s3: "length r < Suc (length cs)" if "consChar u (parseChars cs) = Some (x, r)" for u
      using step [OF that] Cons by simp
    have s2: "length r < Suc (Suc (length es))"
      if "cs = e # es" "consChar u (parseChars es) = Some (x, r)" for u e es
      using step [OF that(2)] that(1) Cons by simp
    have s1: "length r < Suc (Suc (Suc (Suc (Suc (Suc (length rest))))))"
      if "cs = e # h1 # h2 # h3 # h4 # rest" "consChar u (parseChars rest) = Some (x, r)"
      for u e h1 h2 h3 h4 rest
      using step [OF that(2)] that(1) Cons by simp
    show ?thesis
      using "1.prems" unfolding Cons parseChars.simps
      by (auto split: if_splits list.splits option.splits intro: s1 s2 s3)
  qed
qed

lemma spanDigits_length: "spanDigits s = (ds, r) \<Longrightarrow> length r \<le> length s"
  by (auto simp: spanDigits_def length_dropWhile_le)

lemma parseInt_length: "parseInt s = Some (l, r) \<Longrightarrow> length r < length s"
  by (auto simp: parseInt_def split: list.splits if_splits prod.splits
      dest!: spanDigits_length)

lemma parseFrac_length: "parseFrac s = Some (l, r) \<Longrightarrow> length r \<le> length s"
  by (auto simp: parseFrac_def split: list.splits if_splits prod.splits
      dest!: spanDigits_length)

lemma parseExp_length: "parseExp s = Some (l, r) \<Longrightarrow> length r \<le> length s"
  by (auto simp: parseExp_def split: list.splits if_splits prod.splits
      dest!: spanDigits_length)

lemma parseNumber_length: "parseNumber s = Some (l, r) \<Longrightarrow> length r < length s"
proof -
  assume a: "parseNumber s = Some (l, r)"
  then obtain i r1 f r2 e where
    i: "(case s of [] \<Rightarrow> None
         | c # cs \<Rightarrow> if c = 0x2D then consChar c (parseInt cs) else parseInt s) = Some (i, r1)"
    and f: "parseFrac r1 = Some (f, r2)" and e: "parseExp r2 = Some (e, r)"
    by (auto simp: parseNumber_def split: option.splits)
  have "length r1 < length s"
  proof (cases s)
    case Nil
    with i show ?thesis by simp
  next
    case (Cons c cs)
    show ?thesis
    proof (cases "c = 0x2D")
      case True
      with i Cons obtain y where "parseInt cs = Some (y, r1)"
        using consChar_Some by fastforce
      then show ?thesis using parseInt_length Cons by fastforce
    next
      case False
      with i Cons show ?thesis using parseInt_length by fastforce
    qed
  qed
  with parseFrac_length [OF f] parseExp_length [OF e] show ?thesis by simp
qed

lemma stripPrefix_length: "stripPrefix p s = Some r \<Longrightarrow> length r \<le> length s"
  by (auto simp: stripPrefix_def split: if_splits)

lemma parse_consumes:
  "(\<forall>s v r. parseValue n s = Some (v, r) \<longrightarrow> length r < length s)
   \<and> (\<forall>s v r. parseElements n s = Some (v, r) \<longrightarrow> length r < length s)
   \<and> (\<forall>s v r. parseMembers n s = Some (v, r) \<longrightarrow> length r < length s)"
proof (induction n)
  case 0
  show ?case by (simp add: parseValue.simps parseElements.simps parseMembers.simps)
next
  case (Suc n)
  then have v: "\<And>s v r. parseValue n s = Some (v, r) \<Longrightarrow> length r < length s"
    and e: "\<And>s v r. parseElements n s = Some (v, r) \<Longrightarrow> length r < length s"
    and m: "\<And>s v r. parseMembers n s = Some (v, r) \<Longrightarrow> length r < length s"
    by blast+
  have "length r < length s" if "parseValue (Suc n) s = Some (x, r)" for s x r
  proof (cases s)
    case Nil
    with that show ?thesis by (simp add: parseValue.simps)
  next
    case (Cons c cs)
    show ?thesis
      using that [unfolded Cons parseValue.simps] unfolding Cons
      by (auto split: if_splits list.splits option.splits
          dest!: e m parseChars_length parseNumber_length stripPrefix_length skipWS_Cons_length)
  qed
  moreover have "length r < length s" if "parseElements (Suc n) s = Some (x, r)" for s x r
    using that [unfolded parseElements.simps] length_skipWS
    by (auto split: if_splits list.splits option.splits
        dest!: v e skipWS_Cons_length)
       (meson length_skipWS less_le_trans less_trans order_le_less_trans)+
  moreover have "length r < length s" if "parseMembers (Suc n) s = Some (x, r)" for s x r
  proof (cases s)
    case Nil
    with that show ?thesis by (simp add: parseMembers.simps)
  next
    case (Cons q qs)
    show ?thesis
      using that [unfolded Cons parseMembers.simps] unfolding Cons
      by (auto split: if_splits list.splits option.splits
          dest!: v m parseChars_length skipWS_Cons_length)
         (meson length_skipWS less_le_trans less_trans order_le_less_trans less_Suc_eq)+
  qed
  ultimately show ?case by blast
qed

lemma parseValue_cases:
  assumes "parseValue (Suc n) s = Some (x, r)"
  obtains (scalar) c cs where "s = c # cs" "c \<noteq> 0x5B" "c \<noteq> 0x7B"
    | (arr0) cs where "s = 0x5B # cs" "skipWS cs = 0x5D # r" "x = JArr []"
    | (arr) cs d ds vs where "s = 0x5B # cs" "skipWS cs = d # ds" "d \<noteq> 0x5D"
        "parseElements n (d # ds) = Some (vs, r)" "x = JArr vs"
    | (obj0) cs where "s = 0x7B # cs" "skipWS cs = 0x7D # r" "x = JObj []"
    | (obj) cs d ds ms where "s = 0x7B # cs" "skipWS cs = d # ds" "d \<noteq> 0x7D"
        "parseMembers n (d # ds) = Some (ms, r)" "x = JObj ms"
proof (cases s)
  case Nil
  with assms show ?thesis by (simp add: parseValue.simps)
next
  case (Cons c cs)
  consider "c = 0x5B" | "c = 0x7B" | "c \<noteq> 0x5B" "c \<noteq> 0x7B" by blast
  then show ?thesis
  proof cases
    case 1
    with assms Cons arr0 arr show ?thesis
      by (auto simp: parseValue.simps split: list.splits if_splits option.splits)
  next
    case 2
    with assms Cons obj0 obj show ?thesis
      by (auto simp: parseValue.simps split: list.splits if_splits option.splits)
  next
    case 3
    with Cons scalar show ?thesis by blast
  qed
qed

lemma parseValue_scalar:
  "c \<noteq> 0x5B \<Longrightarrow> c \<noteq> 0x7B \<Longrightarrow> parseValue (Suc n) (c # cs) = parseValue (Suc m) (c # cs)"
  by (simp add: parseValue.simps)

lemma parseValue_arr0I: "skipWS cs = 0x5D # r \<Longrightarrow> parseValue (Suc k) (0x5B # cs) = Some (JArr [], r)"
  by (simp add: parseValue.simps)

lemma parseValue_arrI:
  "skipWS cs = d # ds \<Longrightarrow> d \<noteq> 0x5D \<Longrightarrow> parseElements k (d # ds) = Some (vs, r) \<Longrightarrow>
   parseValue (Suc k) (0x5B # cs) = Some (JArr vs, r)"
  by (simp add: parseValue.simps)

lemma parseValue_obj0I: "skipWS cs = 0x7D # r \<Longrightarrow> parseValue (Suc k) (0x7B # cs) = Some (JObj [], r)"
  by (simp add: parseValue.simps)

lemma parseValue_objI:
  "skipWS cs = d # ds \<Longrightarrow> d \<noteq> 0x7D \<Longrightarrow> parseMembers k (d # ds) = Some (ms, r) \<Longrightarrow>
   parseValue (Suc k) (0x7B # cs) = Some (JObj ms, r)"
  by (simp add: parseValue.simps)

lemma parseElements_cases:
  assumes "parseElements (Suc n) s = Some (x, r)"
  obtains (last) v r1 where "parseValue n s = Some (v, r1)" "skipWS r1 = 0x5D # r" "x = [v]"
    | (continued) v r1 ds vs where "parseValue n s = Some (v, r1)" "skipWS r1 = 0x2C # ds"
        "parseElements n (skipWS ds) = Some (vs, r)" "x = v # vs"
  using assms unfolding parseElements.simps
  by (auto split: option.splits list.splits if_splits)

lemma parseElements_lastI:
  "parseValue k s = Some (v, r1) \<Longrightarrow> skipWS r1 = 0x5D # r \<Longrightarrow>
   parseElements (Suc k) s = Some ([v], r)"
  by (simp add: parseElements.simps)

lemma parseElements_nextI:
  "parseValue k s = Some (v, r1) \<Longrightarrow> skipWS r1 = 0x2C # ds \<Longrightarrow>
   parseElements k (skipWS ds) = Some (vs, r) \<Longrightarrow>
   parseElements (Suc k) s = Some (v # vs, r)"
  by (simp add: parseElements.simps)

lemma parseMembers_cases:
  assumes "parseMembers (Suc n) s = Some (x, r)"
  obtains (last) qs key r0 r1 v r2 where "s = 0x22 # qs" "parseChars qs = Some (key, r0)"
        "skipWS r0 = 0x3A # r1" "parseValue n (skipWS r1) = Some (v, r2)"
        "skipWS r2 = 0x7D # r" "x = [(key, v)]"
    | (continued) qs key r0 r1 v r2 ds ms where "s = 0x22 # qs" "parseChars qs = Some (key, r0)"
        "skipWS r0 = 0x3A # r1" "parseValue n (skipWS r1) = Some (v, r2)"
        "skipWS r2 = 0x2C # ds" "parseMembers n (skipWS ds) = Some (ms, r)" "x = (key, v) # ms"
proof (cases s)
  case Nil
  with assms show ?thesis by (simp add: parseMembers.simps)
next
  case (Cons q qs)
  with assms last continued show ?thesis
    by (auto simp: parseMembers.simps split: option.splits list.splits if_splits)
qed

lemma parseMembers_lastI:
  "parseChars qs = Some (key, r0) \<Longrightarrow> skipWS r0 = 0x3A # r1 \<Longrightarrow>
   parseValue k (skipWS r1) = Some (v, r2) \<Longrightarrow> skipWS r2 = 0x7D # r \<Longrightarrow>
   parseMembers (Suc k) (0x22 # qs) = Some ([(key, v)], r)"
  by (simp add: parseMembers.simps)

lemma parseMembers_nextI:
  "parseChars qs = Some (key, r0) \<Longrightarrow> skipWS r0 = 0x3A # r1 \<Longrightarrow>
   parseValue k (skipWS r1) = Some (v, r2) \<Longrightarrow> skipWS r2 = 0x2C # ds \<Longrightarrow>
   parseMembers k (skipWS ds) = Some (ms, r) \<Longrightarrow>
   parseMembers (Suc k) (0x22 # qs) = Some ((key, v) # ms, r)"
  by (simp add: parseMembers.simps)

lemma parseValue_consumes: "parseValue n s = Some (x, r) \<Longrightarrow> length r < length s"
  using parse_consumes [of n] by blast

lemma parseElements_consumes: "parseElements n s = Some (x, r) \<Longrightarrow> length r < length s"
  using parse_consumes [of n] by blast

lemma parseMembers_consumes: "parseMembers n s = Some (x, r) \<Longrightarrow> length r < length s"
  using parse_consumes [of n] by blast

lemma parse_fuel_enough:
  "(\<forall>s x r k. parseValue n s = Some (x, r) \<longrightarrow> length s - length r \<le> k \<longrightarrow>
       parseValue k s = Some (x, r))
   \<and> (\<forall>s x r k. parseElements n s = Some (x, r) \<longrightarrow> length s - length r \<le> k \<longrightarrow>
       parseElements k s = Some (x, r))
   \<and> (\<forall>s x r k. parseMembers n s = Some (x, r) \<longrightarrow> length s - length r \<le> k \<longrightarrow>
       parseMembers k s = Some (x, r))"
proof (induction n)
  case 0
  show ?case by (simp add: parseValue.simps parseElements.simps parseMembers.simps)
next
  case (Suc n)
  then have v: "\<And>s x r k. parseValue n s = Some (x, r) \<Longrightarrow> length s - length r \<le> k \<Longrightarrow>
      parseValue k s = Some (x, r)"
    and e: "\<And>s x r k. parseElements n s = Some (x, r) \<Longrightarrow> length s - length r \<le> k \<Longrightarrow>
      parseElements k s = Some (x, r)"
    and m: "\<And>s x r k. parseMembers n s = Some (x, r) \<Longrightarrow> length s - length r \<le> k \<Longrightarrow>
      parseMembers k s = Some (x, r)"
    by blast+
  have V: "parseValue k s = Some (x, r)"
    if H: "parseValue (Suc n) s = Some (x, r)" and K: "length s - length r \<le> k" for s x r k
  proof -
    have lt: "length r < length s" using parseValue_consumes [OF H] .
    with K obtain j where k: "k = Suc j" by (cases k) auto
    from H show ?thesis
    proof (cases rule: parseValue_cases)
      case (scalar c cs)
      then show ?thesis
        using H parseValue_scalar [of c n cs j] k by simp
    next
      case (arr0 cs)
      then show ?thesis using parseValue_arr0I k by simp
    next
      case (arr cs d ds vs)
      have "length (d # ds) \<le> length cs" using length_skipWS [of cs] arr(2) by simp
      then have "length (d # ds) - length r \<le> j" using K k arr(1) by simp
      then have "parseElements j (d # ds) = Some (vs, r)" using e arr(4) by blast
      then show ?thesis using parseValue_arrI arr k by simp
    next
      case (obj0 cs)
      then show ?thesis using parseValue_obj0I k by simp
    next
      case (obj cs d ds ms)
      have "length (d # ds) \<le> length cs" using length_skipWS [of cs] obj(2) by simp
      then have "length (d # ds) - length r \<le> j" using K k obj(1) by simp
      then have "parseMembers j (d # ds) = Some (ms, r)" using m obj(4) by blast
      then show ?thesis using parseValue_objI obj k by simp
    qed
  qed
  have E: "parseElements k s = Some (x, r)"
    if H: "parseElements (Suc n) s = Some (x, r)" and K: "length s - length r \<le> k" for s x r k
  proof -
    have lt: "length r < length s" using parseElements_consumes [OF H] .
    with K obtain j where k: "k = Suc j" by (cases k) auto
    from H show ?thesis
    proof (cases rule: parseElements_cases)
      case (last v r1)
      have a: "length r1 < length s" using parseValue_consumes [OF last(1)] .
      have b: "length r < length r1" using skipWS_Cons_length [OF last(2)] .
      have "length s - length r1 \<le> j" using a b K k by linarith
      then have "parseValue j s = Some (v, r1)" using v last(1) by blast
      then show ?thesis using parseElements_lastI last k by simp
    next
      case (continued v r1 ds vs)
      have a: "length r1 < length s" using parseValue_consumes [OF continued(1)] .
      have b: "length ds < length r1" using skipWS_Cons_length [OF continued(2)] .
      have c: "length r < length (skipWS ds)" using parseElements_consumes [OF continued(3)] .
      have d: "length (skipWS ds) \<le> length ds" by (rule length_skipWS)
      have "length s - length r1 \<le> j" using a b c d K k by linarith
      then have p: "parseValue j s = Some (v, r1)" using v continued(1) by blast
      have "length (skipWS ds) - length r \<le> j" using a b c d K k by linarith
      then have "parseElements j (skipWS ds) = Some (vs, r)" using e continued(3) by blast
      then show ?thesis using parseElements_nextI [OF p continued(2)] continued(4) k by simp
    qed
  qed
  have M: "parseMembers k s = Some (x, r)"
    if H: "parseMembers (Suc n) s = Some (x, r)" and K: "length s - length r \<le> k" for s x r k
  proof -
    have lt: "length r < length s" using parseMembers_consumes [OF H] .
    with K obtain j where k: "k = Suc j" by (cases k) auto
    from H show ?thesis
    proof (cases rule: parseMembers_cases)
      case (last qs key r0 r1 v r2)
      have a: "length r0 < length qs" using parseChars_length [OF last(2)] .
      have b: "length r1 < length r0" using skipWS_Cons_length [OF last(3)] .
      have c: "length r2 < length (skipWS r1)" using parseValue_consumes [OF last(4)] .
      have d: "length (skipWS r1) \<le> length r1" by (rule length_skipWS)
      have f: "length r < length r2" using skipWS_Cons_length [OF last(5)] .
      have g: "length s = Suc (length qs)" using last(1) by simp
      have "length (skipWS r1) - length r2 \<le> j" using a b c d f g K k by linarith
      then have p: "parseValue j (skipWS r1) = Some (v, r2)" using v last(4) by blast
      show ?thesis
        using parseMembers_lastI [OF last(2) last(3) p last(5)] last(1) last(6) k by simp
    next
      case (continued qs key r0 r1 v r2 ds ms)
      have a: "length r0 < length qs" using parseChars_length [OF continued(2)] .
      have b: "length r1 < length r0" using skipWS_Cons_length [OF continued(3)] .
      have c: "length r2 < length (skipWS r1)" using parseValue_consumes [OF continued(4)] .
      have d: "length (skipWS r1) \<le> length r1" by (rule length_skipWS)
      have f: "length ds < length r2" using skipWS_Cons_length [OF continued(5)] .
      have h: "length r < length (skipWS ds)" using parseMembers_consumes [OF continued(6)] .
      have i: "length (skipWS ds) \<le> length ds" by (rule length_skipWS)
      have g: "length s = Suc (length qs)" using continued(1) by simp
      have "length (skipWS r1) - length r2 \<le> j" using a b c d f g h i K k by linarith
      then have p: "parseValue j (skipWS r1) = Some (v, r2)" using v continued(4) by blast
      have "length (skipWS ds) - length r \<le> j" using a b c d f g h i K k by linarith
      then have q: "parseMembers j (skipWS ds) = Some (ms, r)" using m continued(6) by blast
      show ?thesis
        using parseMembers_nextI [OF continued(2) continued(3) p continued(5) q]
          continued(1) continued(7) k by simp
    qed
  qed
  show ?case using V E M by blast
qed


lemma JSON_parse_fuel:
  "parseValue n (skipWS s) = Some (v, r) \<Longrightarrow>
   parseValue (Suc (length s)) (skipWS s) = Some (v, r)"
proof -
  assume a: "parseValue n (skipWS s) = Some (v, r)"
  have "length (skipWS s) - length r \<le> Suc (length s)"
    using length_skipWS [of s] by simp
  with a show ?thesis using parse_fuel_enough [of n] by blast
qed

lemma JSON_parse_complete:
  "JSON_parse s = Inl SyntaxError \<longleftrightarrow>
     (\<forall>n v r. parseValue n (skipWS s) = Some (v, r) \<longrightarrow> skipWS r \<noteq> [])"
proof
  assume f: "JSON_parse s = Inl SyntaxError"
  show "\<forall>n v r. parseValue n (skipWS s) = Some (v, r) \<longrightarrow> skipWS r \<noteq> []"
  proof (intro allI impI)
    fix n v r
    assume "parseValue n (skipWS s) = Some (v, r)"
    then have "parseValue (Suc (length s)) (skipWS s) = Some (v, r)" by (rule JSON_parse_fuel)
    with f show "skipWS r \<noteq> []"
      by (auto simp: JSON_parse_def split: if_splits)
  qed
next
  assume "\<forall>n v r. parseValue n (skipWS s) = Some (v, r) \<longrightarrow> skipWS r \<noteq> []"
  then show "JSON_parse s = Inl SyntaxError"
    by (auto simp: JSON_parse_def split: option.splits)
qed

subsection \<open>Adding a task\<close>

text \<open>
  Claim C1. For every text whose trimmed value is not empty, \<open>addTask\<close> with that text in
  the input field makes the list one longer: the new task is appended at the end, with
  \<open>completed = false\<close> and the text as given (not trimmed), and the tasks that were
  there keep their values and positions.
\<close>

theorem addTask_appends:
  assumes "trim txt \<noteq> []"
  shows "tasks (addTask (setTask txt w)) =
           tasks w @ [\<lparr>id_t = toString (now w), text_t = txt, completed = False\<rparr>]
         \<and> length (tasks (addTask (setTask txt w))) = length (tasks w) + 1
         \<and> text_t (last (tasks (addTask (setTask txt w)))) = txt
         \<and> \<not> completed (last (tasks (addTask (setTask txt w))))
         \<and> (\<forall>k < length (tasks w). tasks (addTask (setTask txt w)) ! k = tasks w ! k)"
  using assms
  by (simp add: addTask_def setTask_def Let_def startTiming_def tasks_setTasks nth_append)

theorem addTask_appends_witness:
  "trim (js ''Buy milk'') \<noteq> []
   \<and> tasks (addTask (setTask (js ''Buy milk'') (init Map.empty False 7))) =
       [\<lparr>id_t = js ''7'', text_t = js ''Buy milk'', completed = False\<rparr>]"
proof -
  have h: "trim (js ''Buy milk'') \<noteq> []"
    by (simp add: trim_def js_def isWhiteSpace_def)
  have t: "toString 7 = js ''7''"
    by (simp add: toString.simps digit_def js_def)
  show ?thesis
    using h addTask_appends [OF h, of "init Map.empty False 7"] t
    by (simp add: init_def)
qed

text \<open>
  Claim C3. For every text that is empty or consists of white space only, \<open>addTask\<close> does
  nothing: the whole state is as it was, so the list is unchanged and no item is written
  to the storage.
\<close>

theorem addTask_blank_noop:
  assumes "\<forall>c \<in> set txt. isWhiteSpace c"
  shows "addTask (setTask txt w) = setTask txt w
         \<and> tasks (addTask (setTask txt w)) = tasks w
         \<and> storage (addTask (setTask txt w)) = storage w
         \<and> setItem_calls (addTask (setTask txt w)) = setItem_calls w"
proof -
  from assms have "trim txt = []" by (simp add: trim_empty_iff)
  then show ?thesis by (simp add: addTask_def setTask_def)
qed

theorem addTask_blank_noop_witness:
  "list_all isWhiteSpace (js ''   '')
   \<and> tasks (addTask (setTask (js ''   '') (mount (init Map.empty False 7)))) = []
   \<and> setItem_calls (addTask (setTask (js ''   '') (mount (init Map.empty False 7)))) =
       [(js ''tasks'', js ''[]'')]"
proof -
  have h: "\<forall>c \<in> set (js ''   ''). isWhiteSpace c"
    by (simp add: js_def isWhiteSpace_def)
  show ?thesis
    using h addTask_blank_noop [OF h, of "mount (init Map.empty False 7)"]
    by (simp add: mount_def init_def saveTasksToStorage_def Let_def JSON_stringify_def js_def
        setTask_def list_all_iff)
qed

subsection \<open>Deleting a task\<close>

text \<open>
  Claim C5. For every id that no task of the list has, \<open>deleteTask\<close> does nothing: the
  list, the animation values, the storage and the running animations are as they were.
\<close>

theorem deleteTask_absent_noop:
  assumes "taskId \<notin> id_t ` set (tasks w)"
  shows "deleteTask taskId w = w"
proof -
  from assms have "\<not> (\<exists>t \<in> set (tasks w). id_t t = taskId)" by auto
  then have "\<not> findIndex (\<lambda>task. id_t task = taskId) (tasks w) \<ge> 0"
    by (simp add: findIndex_nonneg_iff)
  then show ?thesis by (simp add: deleteTask_def Let_def)
qed


theorem deleteTask_absent_noop_witness:
  "js ''9'' \<notin> id_t ` set (tasks sample) \<and> deleteTask (js ''9'') sample = sample"
proof -
  have h: "js ''9'' \<notin> id_t ` set (tasks sample)"
    by (simp add: tasks_sample js_def)
  show ?thesis
    using h deleteTask_absent_noop [OF h] by simp
qed




subsection \<open>Toggling and editing\<close>

text \<open>
  Claim C6. \<open>toggleComplete\<close> keeps the length of the list; at every position, a task
  with the given id has its \<open>completed\<close> flag negated and nothing else changed (same id,
  same text), and a task with another id is unchanged; toggling twice gives the original
  list back; and when no task has the id, the list is unchanged.
\<close>

theorem toggleComplete_flips:
  "length (tasks (toggleComplete i w)) = length (tasks w)
   \<and> (\<forall>k < length (tasks w).
         tasks (toggleComplete i w) ! k =
           (if id_t (tasks w ! k) = i
            then (tasks w ! k)\<lparr>completed := \<not> completed (tasks w ! k)\<rparr>
            else tasks w ! k)
         \<and> id_t (tasks (toggleComplete i w) ! k) = id_t (tasks w ! k)
         \<and> text_t (tasks (toggleComplete i w) ! k) = text_t (tasks w ! k))
   \<and> tasks (toggleComplete i (toggleComplete i w)) = tasks w
   \<and> (i \<notin> id_t ` set (tasks w) \<longrightarrow> tasks (toggleComplete i w) = tasks w)"
proof -
  have twice: "tasks (toggleComplete i (toggleComplete i w)) = tasks w"
    by (simp add: toggleComplete_def tasks_setTasks map_idI)
  have absent: "i \<notin> id_t ` set (tasks w) \<longrightarrow> tasks (toggleComplete i w) = tasks w"
    by (auto simp: toggleComplete_def tasks_setTasks intro!: map_idI)
  show ?thesis
    using twice absent by (simp add: toggleComplete_def tasks_setTasks)
qed

theorem toggleComplete_flips_witness:
  "tasks (toggleComplete (js ''7'') sample) =
     [\<lparr>id_t = js ''7'', text_t = js ''Buy milk'', completed = True\<rparr>]
   \<and> tasks (toggleComplete (js ''7'') (toggleComplete (js ''7'') sample)) = tasks sample
   \<and> tasks (toggleComplete (js ''8'') sample) = tasks sample"
proof -
  have n: "js ''8'' \<notin> id_t ` set (tasks sample)"
    by (simp add: tasks_sample js_def)
  have l: "length (tasks (toggleComplete (js ''7'') sample)) = 1"
    using toggleComplete_flips [of "js ''7''" sample] by (simp add: tasks_sample)
  have "tasks (toggleComplete (js ''7'') sample) ! 0 =
          \<lparr>id_t = js ''7'', text_t = js ''Buy milk'', completed = True\<rparr>"
    using toggleComplete_flips [of "js ''7''" sample] by (simp add: tasks_sample)
  with l have "tasks (toggleComplete (js ''7'') sample) =
          [\<lparr>id_t = js ''7'', text_t = js ''Buy milk'', completed = True\<rparr>]"
    by (cases "tasks (toggleComplete (js ''7'') sample)") auto
  then show ?thesis
    using toggleComplete_flips [of "js ''7''" sample] toggleComplete_flips [of "js ''8''" sample] n
    by simp
qed

text \<open>
  Claim C7. \<open>updateTask\<close> sets the text of the tasks with the given id to exactly the new
  text (the empty string included) and leaves their id and \<open>completed\<close> flag, and every
  other task, unchanged; \<open>editingId\<close> is not changed; and when no task has the id, the
  list is unchanged.
\<close>

theorem updateTask_sets_text:
  "length (tasks (updateTask i t w)) = length (tasks w)
   \<and> (\<forall>k < length (tasks w).
         tasks (updateTask i t w) ! k =
           (if id_t (tasks w ! k) = i then (tasks w ! k)\<lparr>text_t := t\<rparr> else tasks w ! k)
         \<and> id_t (tasks (updateTask i t w) ! k) = id_t (tasks w ! k)
         \<and> completed (tasks (updateTask i t w) ! k) = completed (tasks w ! k)
         \<and> (id_t (tasks w ! k) = i \<longrightarrow> text_t (tasks (updateTask i t w) ! k) = t))
   \<and> editingId (updateTask i t w) = editingId w
   \<and> (i \<notin> id_t ` set (tasks w) \<longrightarrow> tasks (updateTask i t w) = tasks w)"
proof -
  have absent: "i \<notin> id_t ` set (tasks w) \<longrightarrow> tasks (updateTask i t w) = tasks w"
    by (auto simp: updateTask_def tasks_setTasks intro!: map_idI)
  show ?thesis
    using absent by (simp add: updateTask_def tasks_setTasks editingId_setTasks)
qed

theorem updateTask_sets_text_witness:
  "tasks (updateTask (js ''7'') [] (setEditingId (js ''7'') sample)) =
     [\<lparr>id_t = js ''7'', text_t = [], completed = False\<rparr>]
   \<and> editingId (updateTask (js ''7'') [] (setEditingId (js ''7'') sample)) = Some (js ''7'')
   \<and> tasks (updateTask (js ''8'') (js ''x'') sample) = tasks sample"
proof -
  let ?w = "setEditingId (js ''7'') sample"
  have ts: "tasks ?w = [\<lparr>id_t = js ''7'', text_t = js ''Buy milk'', completed = False\<rparr>]"
    by (simp add: setEditingId_def tasks_sample)
  have n: "js ''8'' \<notin> id_t ` set (tasks sample)"
    by (simp add: tasks_sample js_def)
  have l: "length (tasks (updateTask (js ''7'') [] ?w)) = 1"
    using updateTask_sets_text [of "js ''7''" "[]" ?w] by (simp add: ts)
  have "tasks (updateTask (js ''7'') [] ?w) ! 0 =
          \<lparr>id_t = js ''7'', text_t = [], completed = False\<rparr>"
    using updateTask_sets_text [of "js ''7''" "[]" ?w] by (simp add: ts)
  with l have "tasks (updateTask (js ''7'') [] ?w) =
          [\<lparr>id_t = js ''7'', text_t = [], completed = False\<rparr>]"
    by (cases "tasks (updateTask (js ''7'') [] ?w)") auto
  moreover have "editingId (updateTask (js ''7'') [] ?w) = Some (js ''7'')"
    using updateTask_sets_text [of "js ''7''" "[]" ?w] by (simp add: setEditingId_def)
  ultimately show ?thesis
    using updateTask_sets_text [of "js ''8''" "js ''x''" sample] n
    by simp
qed

subsection \<open>Ids\<close>

text \<open>
  Claim C2 does not hold: the id of a new task is the clock reading in milliseconds, so
  two \<open>addTask\<close> calls with no time passing between them give two tasks with the same
  id, whatever the earlier state was. (Lemmas \<open>toString_inj\<close> and \<open>addTask_fresh_id\<close>
  above give the other direction: the id is fresh when the clock reading is.)
\<close>

theorem addTask_twice_same_id:
  "trim a \<noteq> [] \<Longrightarrow> trim b \<noteq> [] \<Longrightarrow>
   (\<exists>w'. run [ChangeText a, PressAdd, ChangeText b, PressAdd] w = Inr w'
       \<and> tasks w' = tasks w @ [\<lparr>id_t = toString (now w), text_t = a, completed = False\<rparr>,
                                \<lparr>id_t = toString (now w), text_t = b, completed = False\<rparr>]
       \<and> \<not> distinct (map id_t (tasks w')))"
  by (simp add: addTask_def setTask_def Let_def startTiming_def tasks_setTasks
      setTasks_def saveTasksToStorage_def)

theorem addTask_twice_same_id_witness:
  "\<exists>w'. run [ChangeText (js ''Buy milk''), PressAdd, ChangeText (js ''Buy milk''), PressAdd]
           (mount (init Map.empty False 7)) = Inr w'
      \<and> map id_t (tasks w') = [js ''7'', js ''7'']"
proof -
  obtain w' where
    "run [ChangeText (js ''Buy milk''), PressAdd, ChangeText (js ''Buy milk''), PressAdd]
       (mount (init Map.empty False 7)) = Inr w'"
    and "tasks w' = tasks (mount (init Map.empty False 7)) @
       [\<lparr>id_t = toString (now (mount (init Map.empty False 7))),
         text_t = js ''Buy milk'', completed = False\<rparr>,
        \<lparr>id_t = toString (now (mount (init Map.empty False 7))),
         text_t = js ''Buy milk'', completed = False\<rparr>]"
    using addTask_twice_same_id [OF trim_Buy_milk trim_Buy_milk] by blast
  then show ?thesis
    by (simp add: mount_def init_def saveTasksToStorage_def Let_def toString_7)
qed

subsection \<open>Persisting\<close>




subsection \<open>Serialising and loading\<close>

text \<open>
  Claim C8. For every list of tasks, parsing the text \<open>JSON.stringify\<close> prints for it
  succeeds and gives the array of the tasks' objects, which reads back as the same list:
  same ids, texts and \<open>completed\<close> flags, in the same order. So a load that finds this
  text in the storage installs exactly the list that was saved.
\<close>

theorem JSON_roundtrip:
  "JSON_parse (JSON_stringify ts) = Inr (JArr (map json_of_task ts))
   \<and> tasks_of_json (JArr (map json_of_task ts)) = Some ts
   \<and> loadTasksFromStorage (Resolved (Some (JSON_stringify ts))) w = Inr (setTasks (\<lambda>_. ts) w)
   \<and> tasks (setTasks (\<lambda>_. ts) w) = ts"
  by (simp add: JSON_parse_stringify tasks_of_json_def those_tasks_map loadTasksFromStorage_def
      JSON_stringify_nonempty tasks_setTasks)



end
